theory Spec2Isabelle
  imports Main "HOL-Library.Word"
begin

unbundle bit_operations_syntax

section \<open>The fixed-buffer memory resource of \<^verbatim>\<open>src/main.cpp\<close>\<close>

text \<open>
  Pointers (\<^verbatim>\<open>void*\<close>, \<^verbatim>\<open>char*\<close>) and \<^verbatim>\<open>std::size_t\<close> are 64-bit machine words
  (an LP64 platform): arithmetic wraps around, comparisons are unsigned, and the null
  pointer is the word \<open>0\<close>.
\<close>

type_synonym addr = "64 word"
type_synonym size_t = "64 word"

text \<open>\<^verbatim>\<open>using FreeBlock = std::pair<void*, std::size_t>\<close>\<close>

type_synonym FreeBlock = "addr \<times> size_t"

text \<open>
  The data members of \<^verbatim>\<open>class FixedBufferResource\<close>. The \<^verbatim>\<open>std::list<FreeBlock>\<close> is a
  list in insertion order: \<^verbatim>\<open>emplace_back\<close> appends, \<^verbatim>\<open>erase(it)\<close> removes one position.
\<close>

record FixedBufferResource =
  buffer :: addr
  buffer_size :: size_t
  used :: size_t
  free_list :: "FreeBlock list"

text \<open>
  The exceptions that leave the code: \<^verbatim>\<open>std::bad_alloc\<close>, thrown by the resource, and
  whatever the constructor of the element type \<^verbatim>\<open>T\<close> throws.
\<close>

datatype exn = bad_alloc | value_exception

text \<open>
  The constructor \<^verbatim>\<open>FixedBufferResource(std::size_t size)\<close>: the buffer is what
  \<^verbatim>\<open>::operator new(size)\<close> returned (the parameter \<open>b\<close>); a null result throws.
\<close>

definition FixedBufferResource_ctor :: "addr \<Rightarrow> size_t \<Rightarrow> exn + FixedBufferResource" where
  "FixedBufferResource_ctor b sz =
     (if b = 0 then Inl bad_alloc
      else Inr \<lparr>buffer = b, buffer_size = sz, used = 0, free_list = []\<rparr>)"

subsection \<open>\<^verbatim>\<open>std::align\<close>\<close>

text \<open>
  \<^verbatim>\<open>std::align(alignment, size, ptr, space)\<close> belongs to the C++ standard library, not to
  the repository. The definition is the computation of libstdc++ and libc++ (header
  \<^verbatim>\<open><memory>\<close>), which implements the standard's wording (the first address at or after
  \<^verbatim>\<open>ptr\<close> that is a multiple of \<^verbatim>\<open>alignment\<close>, provided \<^verbatim>\<open>size\<close> bytes fit behind it in
  \<^verbatim>\<open>space\<close>):

  \<^verbatim>\<open>if (space < size) return nullptr;\<close>
  \<^verbatim>\<open>aligned = (intptr - 1u + align) & -align;  diff = aligned - intptr;\<close>
  \<^verbatim>\<open>if (diff > space - size) return nullptr;\<close>
  \<^verbatim>\<open>else { space -= diff; return ptr = aligned; }\<close>

  \<^verbatim>\<open>ptr\<close> and \<^verbatim>\<open>space\<close> are reference parameters: the result is the triple of the returned
  pointer and the values \<^verbatim>\<open>ptr\<close> and \<^verbatim>\<open>space\<close> hold after the call. On success the
  caller's \<^verbatim>\<open>ptr\<close> IS the aligned pointer afterwards.
\<close>

definition std_align :: "size_t \<Rightarrow> size_t \<Rightarrow> addr \<Rightarrow> size_t \<Rightarrow> addr \<times> addr \<times> size_t" where
  "std_align alignment sz ptr space =
     (if space < sz then (0, ptr, space)
      else
        let aligned = (ptr - 1 + alignment) AND (- alignment);
            diff = aligned - ptr
        in if diff > space - sz then (0, ptr, space)
           else (aligned, aligned, space - diff))"

subsection \<open>\<^verbatim>\<open>do_deallocate\<close> and \<^verbatim>\<open>do_allocate\<close>\<close>

text \<open>\<^verbatim>\<open>do_deallocate(p, bytes, alignment)\<close>, lines 20-23.\<close>

definition do_deallocate :: "addr \<Rightarrow> size_t \<Rightarrow> size_t \<Rightarrow> FixedBufferResource \<Rightarrow> FixedBufferResource" where
  "do_deallocate p bytes alignment r =
     (if p = 0 then r
      else r\<lparr>free_list := free_list r @ [(p, bytes)]\<rparr>)"

text \<open>
  The \<^verbatim>\<open>for\<close> loop of \<^verbatim>\<open>do_allocate\<close>, lines 27-49. \<open>passed\<close> holds the blocks the iterator
  has passed, the list argument the blocks from the iterator on. The result is \<open>None\<close> when
  the loop falls through, and the returned pointer with the new list otherwise. As in the
  source, \<^verbatim>\<open>wasted\<close> is computed from \<^verbatim>\<open>ptr\<close> as \<^verbatim>\<open>std::align\<close> left it.
\<close>

fun scan_free_list :: "size_t \<Rightarrow> size_t \<Rightarrow> FreeBlock list \<Rightarrow> FreeBlock list \<Rightarrow> (addr \<times> FreeBlock list) option" where
  "scan_free_list bytes alignment passed [] = None"
| "scan_free_list bytes alignment passed ((ptr0, block_size) # rest) =
     (case std_align alignment bytes ptr0 block_size of
        (aligned_ptr, ptr, space) \<Rightarrow>
          if aligned_ptr \<noteq> 0 then
            let wasted = aligned_ptr - ptr;
                remaining = block_size - wasted - bytes;
                erased = passed @ rest
            in Some (aligned_ptr,
                     if remaining > 0 then erased @ [(aligned_ptr + bytes, remaining)]
                     else erased)
          else scan_free_list bytes alignment (passed @ [(ptr0, block_size)]) rest)"

text \<open>
  \<^verbatim>\<open>do_allocate(bytes, alignment)\<close>, lines 26-66. A throw leaves the object as it was, so
  the error carries no state.
\<close>

definition do_allocate :: "size_t \<Rightarrow> size_t \<Rightarrow> FixedBufferResource \<Rightarrow> exn + (addr \<times> FixedBufferResource)" where
  "do_allocate bytes alignment r =
     (case scan_free_list bytes alignment [] (free_list r) of
        Some (p, fl) \<Rightarrow> Inr (p, r\<lparr>free_list := fl\<rparr>)
      | None \<Rightarrow>
          (case std_align alignment bytes (buffer r + used r) (buffer_size r - used r) of
             (aligned_ptr, ptr, space) \<Rightarrow>
               if aligned_ptr = 0 then Inl bad_alloc
               else
                 let wasted = aligned_ptr - (buffer r + used r)
                 in if used r + wasted + bytes > buffer_size r then Inl bad_alloc
                    else Inr (aligned_ptr, r\<lparr>used := used r + wasted + bytes\<rparr>)))"


subsection \<open>Sequences of calls on one resource\<close>

text \<open>
  The public \<^verbatim>\<open>allocate\<close> and \<^verbatim>\<open>deallocate\<close> of \<^verbatim>\<open>std::pmr::memory_resource\<close> forward to
  \<^verbatim>\<open>do_allocate\<close> and \<^verbatim>\<open>do_deallocate\<close>. A call that throws leaves the resource as it was,
  and the caller may go on using it.
\<close>

datatype call = Allocate size_t size_t | Deallocate addr size_t size_t

fun step :: "call \<Rightarrow> FixedBufferResource \<Rightarrow> FixedBufferResource" where
  "step (Allocate bytes alignment) r =
     (case do_allocate bytes alignment r of Inl e \<Rightarrow> r | Inr (p, r') \<Rightarrow> r')"
| "step (Deallocate p bytes alignment) r = do_deallocate p bytes alignment r"

fun run_calls :: "call list \<Rightarrow> FixedBufferResource \<Rightarrow> FixedBufferResource" where
  "run_calls [] r = r"
| "run_calls (c # cs) r = run_calls cs (step c r)"

subsection \<open>What the specification calls fitting\<close>

text \<open>
  The specification's words, over addresses as natural numbers: the span from \<open>lo\<close> to
  \<open>hi\<close> can contain an aligned span of \<open>n\<close> bytes when some multiple \<open>x\<close> of the alignment
  \<open>A\<close> lies in it with \<open>x + n\<close> not beyond \<open>hi\<close>.
\<close>

definition aligned_span_fits :: "nat \<Rightarrow> nat \<Rightarrow> nat \<Rightarrow> nat \<Rightarrow> bool" where
  "aligned_span_fits A n lo hi = (\<exists>x \<in> {lo..hi}. A dvd x \<and> x + n \<le> hi)"

definition block_fits :: "size_t \<Rightarrow> size_t \<Rightarrow> FreeBlock \<Rightarrow> bool" where
  "block_fits alignment bytes b =
     aligned_span_fits (unat alignment) (unat bytes) (unat (fst b)) (unat (fst b) + unat (snd b))"

definition bump_fits :: "size_t \<Rightarrow> size_t \<Rightarrow> FixedBufferResource \<Rightarrow> bool" where
  "bump_fits alignment bytes r =
     aligned_span_fits (unat alignment) (unat bytes)
       (unat (buffer r) + unat (used r)) (unat (buffer r) + unat (buffer_size r))"

text \<open>
  A block is a span of memory: its address is not null and its end is an address. The
  buffer of a constructed resource is such a span too, and \<open>used\<close> starts at \<open>0\<close>.
\<close>

definition block_ok :: "FreeBlock \<Rightarrow> bool" where
  "block_ok b = (fst b \<noteq> 0 \<and> unat (fst b) + unat (snd b) < 2 ^ 64)"

definition resource_ok :: "FixedBufferResource \<Rightarrow> bool" where
  "resource_ok r =
     (block_ok (buffer r, buffer_size r) \<and> used r \<le> buffer_size r)"

section \<open>The stack of \<^verbatim>\<open>src/main.cpp\<close>\<close>

text \<open>
  \<^verbatim>\<open>struct Node { T value; Node* next; }\<close>. The fields are named \<open>node_value\<close> and
  \<open>node_next\<close>.
\<close>

record 'a Node =
  node_value :: 'a
  node_next :: addr

text \<open>
  The state \<^verbatim>\<open>Stack<T>\<close> works on: its member \<^verbatim>\<open>top_node\<close>; the memory resource its
  member \<^verbatim>\<open>alloc\<close> (a \<^verbatim>\<open>std::pmr::polymorphic_allocator\<close>) points to; and the store, which
  maps an address to the \<^verbatim>\<open>Node\<close> object constructed there, if any.
\<close>

record 'a world =
  top_node :: addr
  resource :: FixedBufferResource
  nodes :: "addr \<rightharpoonup> 'a Node"

text \<open>
  Undefined behaviour and a failed \<^verbatim>\<open>assert\<close> are results of their own: reading
  through a pointer at which no node is constructed, and \<^verbatim>\<open>top()\<close> on the empty stack.
\<close>

datatype fault = dangling_pointer | assertion_failed


text \<open>\<^verbatim>\<open>pop\<close>, lines 156-165: \<^verbatim>\<open>alloc.destroy(old)\<close> ends the node object.\<close>

definition pop :: "size_t \<Rightarrow> size_t \<Rightarrow> 'a world \<Rightarrow> fault + 'a world" where
  "pop node_bytes node_align s =
     (if top_node s = 0 then Inr s
      else
        let old = top_node s
        in case nodes s old of
             None \<Rightarrow> Inl dangling_pointer
           | Some n \<Rightarrow>
               Inr (s\<lparr>top_node := node_next n,
                      nodes := (nodes s)(old := None),
                      resource := do_deallocate old node_bytes node_align (resource s)\<rparr>))"

text \<open>\<^verbatim>\<open>top\<close> and \<^verbatim>\<open>empty\<close>, lines 167-177.\<close>

definition top :: "'a world \<Rightarrow> fault + 'a" where
  "top s =
     (if top_node s = 0 then Inl assertion_failed
      else case nodes s (top_node s) of
             None \<Rightarrow> Inl dangling_pointer
           | Some n \<Rightarrow> Inr (node_value n))"

definition empty :: "'a world \<Rightarrow> bool" where
  "empty s = (top_node s = 0)"

text \<open>
  The iterator, lines 188-221: \<^verbatim>\<open>begin()\<close> is at \<^verbatim>\<open>top_node\<close>, \<^verbatim>\<open>end()\<close> at the null
  pointer, \<^verbatim>\<open>++\<close> follows \<^verbatim>\<open>next\<close> and \<^verbatim>\<open>*\<close> reads \<^verbatim>\<open>value\<close>. \<open>iterate\<close> is the loop
  \<^verbatim>\<open>for (it = begin(); it != end(); ++it) out.push_back(*it)\<close> from the iterator position
  \<open>current\<close> on. The result is \<open>None\<close> when the loop does not deliver a sequence: it runs
  forever (a cyclic chain) or reads through a pointer at which no node is constructed.
\<close>

partial_function (option) iterate :: "(addr \<rightharpoonup> 'a Node) \<Rightarrow> addr \<Rightarrow> 'a list \<Rightarrow> 'a list option" where
  "iterate h current out =
     (if current = 0 then Some out
      else case h current of
             None \<Rightarrow> None
           | Some n \<Rightarrow> iterate h (node_next n) (out @ [node_value n]))"

definition contents :: "'a world \<Rightarrow> 'a list option" where
  "contents s = iterate (nodes s) (top_node s) []"

subsection \<open>Sequences of pushes and pops\<close>



text \<open>The empty stack on a resource.\<close>

definition empty_stack :: "FixedBufferResource \<Rightarrow> 'a world" where
  "empty_stack r = \<lparr>top_node = 0, resource = r, nodes = Map.empty\<rparr>"

subsection \<open>The invariant of a stack on its resource\<close>

text \<open>
  \<open>chain h p ns\<close>: following \<^verbatim>\<open>next\<close> from \<open>p\<close> in the store \<open>h\<close> visits exactly the
  addresses of \<open>ns\<close> in order, reads the values of \<open>ns\<close> there, and ends at the null
  pointer.
\<close>

fun chain :: "(addr \<rightharpoonup> 'a Node) \<Rightarrow> addr \<Rightarrow> (addr \<times> 'a) list \<Rightarrow> bool" where
  "chain h p [] = (p = 0)"
| "chain h p ((q, v) # ns) =
     (p = q \<and> q \<noteq> 0 \<and>
      (case h q of None \<Rightarrow> False | Some n \<Rightarrow> node_value n = v \<and> chain h (node_next n) ns))"

text \<open>
  \<open>spans_apart n as\<close>: the spans of \<open>n\<close> bytes at the addresses \<open>as\<close> do not overlap.
\<close>

definition spans_apart :: "nat \<Rightarrow> nat list \<Rightarrow> bool" where
  "spans_apart n as =
     (distinct as \<and> (\<forall>a \<in> set as. \<forall>b \<in> set as. a = b \<or> a + n \<le> b \<or> b + n \<le> a))"

text \<open>
  \<open>pool_inv node_bytes node_align r live\<close>: the resource is a constructed one; every
  registered block has the size of a node; and the live nodes and the registered blocks
  are aligned, lie in the committed part of the buffer and do not overlap.
\<close>

definition pool_inv :: "size_t \<Rightarrow> size_t \<Rightarrow> FixedBufferResource \<Rightarrow> addr list \<Rightarrow> bool" where
  "pool_inv node_bytes node_align r live =
     (let as = live @ map fst (free_list r)
      in resource_ok r \<and>
         list_all (\<lambda>b. snd b = node_bytes) (free_list r) \<and>
         list_all (\<lambda>a. unat a mod unat node_align = 0 \<and>
                        unat (buffer r) \<le> unat a \<and>
                        unat a + unat node_bytes \<le> unat (buffer r) + unat (used r)) as \<and>
         spans_apart (unat node_bytes) (map unat as))"

text \<open>
  \<open>stack_inv node_bytes node_align s ns\<close>: the chain of the stack is \<open>ns\<close>, and its nodes
  are the live nodes of the resource.
\<close>

definition stack_inv :: "size_t \<Rightarrow> size_t \<Rightarrow> 'a world \<Rightarrow> (addr \<times> 'a) list \<Rightarrow> bool" where
  "stack_inv node_bytes node_align s ns =
     (chain (nodes s) (top_node s) ns \<and>
      pool_inv node_bytes node_align (resource s) (map fst ns))"

section \<open>Words and alignment\<close>

text \<open>
  For a power of two, \<^verbatim>\<open>(p - 1 + a) & -a\<close> clears the low bits of \<open>p + (a - 1)\<close>: the
  result is a multiple of \<open>a\<close>, and it lies less than \<open>a\<close> after \<open>p\<close> (modulo \<open>2 ^ 64\<close>).
\<close>

lemma word_split_mask: "(x::64 word) AND NOT (mask k) = x - take_bit k x"
proof -
  have d: "(x AND NOT (mask k)) AND (x AND mask k) = 0"
    by (rule bit_eqI) (auto simp: bit_and_iff bit_not_iff)
  have "(x AND NOT (mask k)) + (x AND mask k) = (x AND NOT (mask k)) OR (x AND mask k)"
    by (rule disjunctive_add_eq_or [OF d])
  also have "\<dots> = x AND (NOT (mask k) OR mask k)"
    by (simp only: bit.conj_disj_distrib)
  also have "\<dots> = x" by simp
  finally have "x AND NOT (mask k) = x - (x AND mask k)"
    by (rule eq_diff_eq [THEN iffD2])
  thus ?thesis
    by (simp add: take_bit_eq_mask)
qed

lemma unat_take_bit_mod: "unat (take_bit k (x::64 word)) = unat x mod 2^k"
  by (subst unsigned_take_bit_eq) (rule take_bit_eq_mod)

lemma align_up_mod: "unat (((p::64 word) - 1 + 2^k) AND - (2^k)) mod 2^k = 0"
proof -
  have "take_bit k ((p - 1 + 2^k) AND - (2^k)) = (0::64 word)"
    by (simp add: minus_exp_eq_not_mask take_bit_eq_mask and.assoc)
  hence "unat (take_bit k ((p - 1 + 2^k) AND - (2^k))) = 0"
    by simp
  thus ?thesis
    by (simp only: unat_take_bit_mod)
qed

lemma align_up_diff: "(((p::64 word) - 1 + 2^k) AND - (2^k)) - p = mask k - take_bit k (p + mask k)"
proof -
  have e: "p - 1 + 2^k = p + mask k" by (simp add: mask_eq_decr_exp)
  have "((p + mask k) AND NOT (mask k)) - p = mask k - take_bit k (p + mask k)"
    unfolding word_split_mask by simp
  thus ?thesis unfolding e minus_exp_eq_not_mask .
qed

lemma align_up_diff_less: "unat ((((p::64 word) - 1 + 2^k) AND - (2^k)) - p) < 2^k"
proof -
  have "take_bit k (p + mask k) \<le> (mask k :: 64 word)"
    by (simp add: take_bit_eq_mask word_and_le1)
  hence "mask k - take_bit k (p + mask k) \<le> (mask k :: 64 word)"
    by (rule word_sub_le)
  hence "unat (mask k - take_bit k (p + mask k)) \<le> unat (mask k :: 64 word)"
    by (simp add: word_le_nat_alt)
  moreover have "(mask k :: 64 word) = take_bit k (mask k)"
    by (simp add: take_bit_eq_mask)
  hence "unat (mask k :: 64 word) = unat (mask k :: 64 word) mod 2^k"
    using unat_take_bit_mod [of k "mask k"] by simp
  hence "unat (mask k :: 64 word) < 2^k"
    by (metis mod_less_divisor zero_less_numeral zero_less_power)
  ultimately show ?thesis
    unfolding align_up_diff by simp
qed

lemma unat_add_mod_pow: 
  assumes "k \<le> 64"
  shows "unat ((a::64 word) + b) mod 2^k = (unat a + unat b) mod 2^k"
proof -
  have "(2::nat)^k dvd 2^64" using assms by (rule le_imp_power_dvd)
  hence "(unat a + unat b) mod 2^64 mod 2^k = (unat a + unat b) mod 2^k"
    by (rule mod_mod_cancel)
  thus ?thesis by (simp add: unat_word_ariths(1))
qed

lemma align_up_sum_mod:
  assumes "k \<le> 64"
  shows "(unat (p::64 word) + unat (((p - 1 + 2^k) AND - (2^k)) - p)) mod 2^k = 0"
proof -
  have "p + (((p - 1 + 2^k) AND - (2^k)) - p) = (p - 1 + 2^k) AND - (2^k)" by simp
  hence "unat (p + (((p - 1 + 2^k) AND - (2^k)) - p)) mod 2^k = 0"
    by (simp only: align_up_mod)
  thus ?thesis by (simp only: unat_add_mod_pow [OF assms])
qed

lemma least_multiple: 
  assumes "(A::nat) dvd x" "A dvd (P + d)" "d < A" "P \<le> x"
  shows "P + d \<le> x"
proof (rule ccontr)
  assume "\<not> P + d \<le> x"
  hence lt: "x < P + d" by simp
  have "A dvd (P + d - x)" using assms(1,2) by (rule_tac dvd_diff_nat)
  moreover have "0 < P + d - x" using lt by simp
  ultimately have "A \<le> P + d - x" by (rule_tac dvd_imp_le)
  thus False using assms(3,4) by simp
qed

section \<open>\<^verbatim>\<open>std::align\<close> in numbers\<close>

lemma unat_pow2: 
  assumes "k < 64" 
  shows "unat (2 ^ k :: 64 word) = 2 ^ k"
proof -
  have "(2::nat) ^ k < 2 ^ 64" using assms by (rule_tac power_strict_increasing) simp_all
  thus ?thesis using unat_of_nat [of "2 ^ k", where ?'a = 64] by simp
qed

lemma std_align_eq:
  "std_align a n p s =
     (if n \<le> s \<and> ((p - 1 + a) AND - a) - p \<le> s - n
      then ((p - 1 + a) AND - a, (p - 1 + a) AND - a, s - (((p - 1 + a) AND - a) - p))
      else (0, p, s))"
  unfolding std_align_def Let_def by (auto simp: not_le)

lemma std_align_ptr:
  "std_align a n p s = (r, p', s') \<Longrightarrow> r \<noteq> 0 \<Longrightarrow> p' = r"
  by (auto simp: std_align_eq split: if_splits)

lemma std_align_success_unat:
  assumes nw: "unat (p::64 word) + unat (s::64 word) < 2 ^ 64" and le: "n \<le> s" and d: "((p - 1 + a) AND - a) - p \<le> s - n"
  shows "unat ((p - 1 + a) AND - a) = unat p + unat (((p - 1 + a) AND - a) - p)"
    and "unat (((p - 1 + a) AND - a) - p) + unat n \<le> unat s"
proof -
  let ?d = "((p - 1 + a) AND - a) - p"
  have "unat ?d \<le> unat (s - n)" using d by (simp add: word_le_nat_alt)
  also have "\<dots> = unat s - unat n" using le by (rule unat_sub)
  finally have dn: "unat ?d \<le> unat s - unat n" .
  have "unat n \<le> unat s" using le by (simp add: word_le_nat_alt)
  with dn show "unat ?d + unat n \<le> unat s" by simp
  hence "unat p + unat ?d < 2 ^ 64" using nw by simp
  hence "unat (p + ?d) = unat p + unat ?d"
    using unat_add_lem [THEN iffD1, of p ?d] by simp
  thus "unat ((p - 1 + a) AND - a) = unat p + unat ?d" by simp
qed

lemma std_align_ok_iff:
  assumes k: "k < 64" and nw: "unat p + unat s < 2 ^ 64" and p0: "p \<noteq> 0"
  shows "fst (std_align (2 ^ k) n p s) \<noteq> 0 \<longleftrightarrow>
           unat n \<le> unat s \<and> unat (((p - 1 + 2 ^ k) AND - (2 ^ k)) - p) \<le> unat s - unat n"
proof (cases "n \<le> s \<and> ((p - 1 + 2 ^ k) AND - (2 ^ k)) - p \<le> s - n")
  case True
  hence a: "n \<le> s" and b: "((p - 1 + 2 ^ k) AND - (2 ^ k)) - p \<le> s - n" by simp_all
  have "unat ((p - 1 + 2 ^ k) AND - (2 ^ k)) = unat p + unat (((p - 1 + 2 ^ k) AND - (2 ^ k)) - p)"
    by (rule std_align_success_unat(1) [OF nw a b])
  moreover have "0 < unat p" using p0 by (simp add: unat_gt_0)
  ultimately have "unat ((p - 1 + 2 ^ k) AND - (2 ^ k)) \<noteq> 0" by simp
  hence nz: "(p - 1 + 2 ^ k) AND - (2 ^ k) \<noteq> 0" by auto
  have "unat (((p - 1 + 2 ^ k) AND - (2 ^ k)) - p) + unat n \<le> unat s"
    by (rule std_align_success_unat(2) [OF nw a b])
  with True nz show ?thesis by (simp add: std_align_eq)
next
  case False
  hence "fst (std_align (2 ^ k) n p s) = 0" by (auto simp: std_align_eq)
  moreover have "\<not> (unat n \<le> unat s \<and> unat (((p - 1 + 2 ^ k) AND - (2 ^ k)) - p) \<le> unat s - unat n)"
  proof
    assume h: "unat n \<le> unat s \<and> unat (((p - 1 + 2 ^ k) AND - (2 ^ k)) - p) \<le> unat s - unat n"
    hence a: "n \<le> s" by (simp add: word_le_nat_alt)
    have "unat (s - n) = unat s - unat n" using a by (rule unat_sub)
    with h have "((p - 1 + 2 ^ k) AND - (2 ^ k)) - p \<le> s - n" by (simp add: word_le_nat_alt)
    with a False show False by simp
  qed
  ultimately show ?thesis by simp
qed

lemma std_align_fits_iff:
  assumes k: "k < 64" and nw: "unat p + unat s < 2 ^ 64" and p0: "p \<noteq> 0"
  shows "fst (std_align (2 ^ k) n p s) \<noteq> 0 \<longleftrightarrow>
           aligned_span_fits (2 ^ k) (unat n) (unat p) (unat p + unat s)"
proof -
  let ?d = "unat (((p - 1 + 2 ^ k) AND - (2 ^ k)) - p)"
  have dl: "?d < 2 ^ k" by (rule align_up_diff_less)
  have dm: "(2::nat) ^ k dvd unat p + ?d"
    using align_up_sum_mod [of k p] k by (simp add: dvd_eq_mod_eq_0)
  have "(unat n \<le> unat s \<and> ?d \<le> unat s - unat n) \<longleftrightarrow>
        aligned_span_fits (2 ^ k) (unat n) (unat p) (unat p + unat s)"
  proof
    assume h: "unat n \<le> unat s \<and> ?d \<le> unat s - unat n"
    hence "unat p + ?d \<in> {unat p .. unat p + unat s}" and "unat p + ?d + unat n \<le> unat p + unat s"
      by auto
    with dm show "aligned_span_fits (2 ^ k) (unat n) (unat p) (unat p + unat s)"
      unfolding aligned_span_fits_def by blast
  next
    assume "aligned_span_fits (2 ^ k) (unat n) (unat p) (unat p + unat s)"
    then obtain x where x: "unat p \<le> x" "(2::nat) ^ k dvd x" "x + unat n \<le> unat p + unat s"
      unfolding aligned_span_fits_def by auto
    have "unat p + ?d \<le> x" using x(2) dm dl x(1) by (rule least_multiple)
    with x(3) show "unat n \<le> unat s \<and> ?d \<le> unat s - unat n" by simp
  qed
  thus ?thesis using std_align_ok_iff [OF k nw p0] by simp
qed

section \<open>The scan of the registry\<close>

lemma std_align_fst_nonzero:
  "fst (std_align a n p s) \<noteq> 0 \<Longrightarrow>
     std_align a n p s = ((p - 1 + a) AND - a, (p - 1 + a) AND - a, s - (((p - 1 + a) AND - a) - p))
     \<and> n \<le> s \<and> ((p - 1 + a) AND - a) - p \<le> s - n"
  by (auto simp: std_align_eq split: if_splits)

lemma scan_step_hit:
  assumes "fst (std_align al n p sz) \<noteq> 0"
  shows "scan_free_list n al passed ((p, sz) # ys) =
           Some (fst (std_align al n p sz),
                 (passed @ ys) @ (if sz - n > 0 then [(fst (std_align al n p sz) + n, sz - n)] else []))"
  using std_align_fst_nonzero [OF assms] assms by (simp add: Let_def)

lemma scan_step_miss:
  assumes "fst (std_align al n p sz) = 0"
  shows "scan_free_list n al passed ((p, sz) # ys) = scan_free_list n al (passed @ [(p, sz)]) ys"
  using assms by (cases "std_align al n p sz") simp

lemma scan_hit:
  assumes "\<forall>b \<in> set xs. fst (std_align al n (fst b) (snd b)) = 0"
      and "fst (std_align al n p sz) \<noteq> 0"
  shows "scan_free_list n al passed (xs @ (p, sz) # ys) =
           Some (fst (std_align al n p sz),
                 (passed @ xs @ ys) @ (if sz - n > 0 then [(fst (std_align al n p sz) + n, sz - n)] else []))"
  using assms(1)
proof (induction xs arbitrary: passed)
  case Nil
  show ?case using scan_step_hit [OF assms(2)] by simp
next
  case (Cons b xs)
  obtain q s where b: "b = (q, s)" by (cases b)
  have miss: "fst (std_align al n q s) = 0" using Cons.prems b by simp
  have rest: "\<forall>b \<in> set xs. fst (std_align al n (fst b) (snd b)) = 0" using Cons.prems by simp
  show ?case
    using Cons.IH [OF rest, of "passed @ [(q, s)]"] scan_step_miss [OF miss] b by simp
qed

lemma scan_miss:
  assumes "\<forall>b \<in> set xs. fst (std_align al n (fst b) (snd b)) = 0"
  shows "scan_free_list n al passed xs = None"
  using assms
proof (induction xs arbitrary: passed)
  case Nil
  show ?case by simp
next
  case (Cons b xs)
  obtain q s where b: "b = (q, s)" by (cases b)
  have miss: "fst (std_align al n q s) = 0" using Cons.prems b by simp
  have rest: "\<forall>b \<in> set xs. fst (std_align al n (fst b) (snd b)) = 0" using Cons.prems by simp
  show ?case
    using Cons.IH [OF rest, of "passed @ [(q, s)]"] scan_step_miss [OF miss] b by simp
qed

lemma scan_cases:
  "(\<forall>b \<in> set fl. fst (std_align al n (fst b) (snd b)) = 0) \<or>
   (\<exists>xs p sz ys. fl = xs @ (p, sz) # ys \<and>
       (\<forall>b \<in> set xs. fst (std_align al n (fst b) (snd b)) = 0) \<and>
       fst (std_align al n p sz) \<noteq> 0)"
proof (induction fl)
  case Nil
  show ?case by simp
next
  case (Cons b fl)
  obtain q s where b: "b = (q, s)" by (cases b)
  show ?case
  proof (cases "fst (std_align al n q s) = 0")
    case False
    hence "b # fl = [] @ (q, s) # fl \<and> (\<forall>b \<in> set []. fst (std_align al n (fst b) (snd b)) = 0) \<and>
       fst (std_align al n q s) \<noteq> 0" using b by simp
    thus ?thesis by blast
  next
    case True
    from Cons.IH show ?thesis
    proof
      assume "\<forall>b \<in> set fl. fst (std_align al n (fst b) (snd b)) = 0"
      thus ?thesis using True b by simp
    next
      assume "\<exists>xs p sz ys. fl = xs @ (p, sz) # ys \<and>
       (\<forall>b \<in> set xs. fst (std_align al n (fst b) (snd b)) = 0) \<and>
       fst (std_align al n p sz) \<noteq> 0"
      then obtain xs p sz ys where h: "fl = xs @ (p, sz) # ys"
         "\<forall>b \<in> set xs. fst (std_align al n (fst b) (snd b)) = 0"
         "fst (std_align al n p sz) \<noteq> 0" by blast
      have "b # fl = (b # xs) @ (p, sz) # ys \<and>
         (\<forall>b \<in> set (b # xs). fst (std_align al n (fst b) (snd b)) = 0) \<and>
         fst (std_align al n p sz) \<noteq> 0" using h True b by simp
      thus ?thesis by blast
    qed
  qed
qed

lemma scan_SomeD:
  assumes "scan_free_list n al passed fl = Some (a, fl')"
  shows "\<exists>xs p sz ys. fl = xs @ (p, sz) # ys \<and>
       (\<forall>b \<in> set xs. fst (std_align al n (fst b) (snd b)) = 0) \<and>
       fst (std_align al n p sz) \<noteq> 0 \<and> a = fst (std_align al n p sz) \<and>
       fl' = (passed @ xs @ ys) @ (if sz - n > 0 then [(a + n, sz - n)] else [])"
  using scan_cases [of fl al n]
proof
  assume "\<forall>b \<in> set fl. fst (std_align al n (fst b) (snd b)) = 0"
  hence "scan_free_list n al passed fl = None" by (rule scan_miss)
  with assms show ?thesis by simp
next
  assume "\<exists>xs p sz ys. fl = xs @ (p, sz) # ys \<and>
       (\<forall>b \<in> set xs. fst (std_align al n (fst b) (snd b)) = 0) \<and>
       fst (std_align al n p sz) \<noteq> 0"
  then obtain xs p sz ys where h: "fl = xs @ (p, sz) # ys"
         "\<forall>b \<in> set xs. fst (std_align al n (fst b) (snd b)) = 0"
         "fst (std_align al n p sz) \<noteq> 0" by blast
  have "scan_free_list n al passed fl = Some (fst (std_align al n p sz),
                 (passed @ xs @ ys) @ (if sz - n > 0 then [(fst (std_align al n p sz) + n, sz - n)] else []))"
    unfolding h(1) by (rule scan_hit [OF h(2,3)])
  with assms have "a = fst (std_align al n p sz)"
     "fl' = (passed @ xs @ ys) @ (if sz - n > 0 then [(a + n, sz - n)] else [])" by auto
  with h show ?thesis by blast
qed

lemma scan_NoneD:
  assumes "scan_free_list n al passed fl = None"
  shows "\<forall>b \<in> set fl. fst (std_align al n (fst b) (snd b)) = 0"
  using scan_cases [of fl al n]
proof
  assume "\<forall>b \<in> set fl. fst (std_align al n (fst b) (snd b)) = 0"
  thus ?thesis .
next
  assume "\<exists>xs p sz ys. fl = xs @ (p, sz) # ys \<and>
       (\<forall>b \<in> set xs. fst (std_align al n (fst b) (snd b)) = 0) \<and>
       fst (std_align al n p sz) \<noteq> 0"
  then obtain xs p sz ys where h: "fl = xs @ (p, sz) # ys"
         "\<forall>b \<in> set xs. fst (std_align al n (fst b) (snd b)) = 0"
         "fst (std_align al n p sz) \<noteq> 0" by blast
  have "scan_free_list n al passed fl \<noteq> None"
    unfolding h(1) using scan_hit [OF h(2,3), of passed ys] by simp
  with assms show ?thesis by simp
qed

lemma std_align_result_aligned:
  assumes "k < 64" "fst (std_align (2 ^ k) n p s) \<noteq> 0"
  shows "unat (fst (std_align (2 ^ k) n p s)) mod unat (2 ^ k :: size_t) = 0"
proof -
  have "fst (std_align (2 ^ k) n p s) = (p - 1 + 2 ^ k) AND - (2 ^ k)"
    using std_align_fst_nonzero [OF assms(2)] by simp
  thus ?thesis using align_up_mod [of p k] unat_pow2 [OF assms(1)] by simp
qed

lemma do_allocate_cases:
  assumes "do_allocate n al r = Inr (a, r')"
  shows "(\<exists>fl'. scan_free_list n al [] (free_list r) = Some (a, fl') \<and> r' = r\<lparr>free_list := fl'\<rparr>) \<or>
         (scan_free_list n al [] (free_list r) = None \<and>
          a = fst (std_align al n (buffer r + used r) (buffer_size r - used r)) \<and> a \<noteq> 0 \<and>
          \<not> used r + (a - (buffer r + used r)) + n > buffer_size r \<and>
          r' = r\<lparr>used := used r + (a - (buffer r + used r)) + n\<rparr>)"
proof (cases "scan_free_list n al [] (free_list r)")
  case (Some x)
  obtain b fl' where x: "x = (b, fl')" by (cases x)
  with Some assms show ?thesis by (simp add: do_allocate_def)
next
  case None
  obtain x y z where s: "std_align al n (buffer r + used r) (buffer_size r - used r) = (x, y, z)"
    by (cases "std_align al n (buffer r + used r) (buffer_size r - used r)")
  with None assms show ?thesis
    by (auto simp: do_allocate_def Let_def split: if_splits)
qed


section \<open>The bump path and the frame of a call\<close>

lemma std_align_room:
  fixes n s d :: "64 word"
  assumes le: "n \<le> s" and d: "d \<le> s - n"
  shows "unat d + unat n \<le> unat s"
proof -
  have "unat d \<le> unat (s - n)" using d by (simp add: word_le_nat_alt)
  also have "\<dots> = unat s - unat n" using le by (rule unat_sub)
  finally have "unat d \<le> unat s - unat n" .
  moreover have "unat n \<le> unat s" using le by (simp add: word_le_nat_alt)
  ultimately show ?thesis by simp
qed

lemma unat_add3:
  fixes u d n :: "64 word"
  assumes "unat u + unat d + unat n < 2 ^ 64"
  shows "unat (u + d + n) = unat u + unat d + unat n"
proof -
  have "unat u + unat d < 2 ^ 64" using assms by simp
  hence a: "unat (u + d) = unat u + unat d" using unat_add_lem [THEN iffD1, of u d] by simp
  hence "unat (u + d) + unat n < 2 ^ 64" using assms by simp
  hence "unat (u + d + n) = unat (u + d) + unat n" using unat_add_lem [THEN iffD1, of "u + d" n] by simp
  with a show ?thesis by simp
qed

lemma bump_used:
  assumes u: "used r \<le> buffer_size r"
      and a: "fst (std_align al n (buffer r + used r) (buffer_size r - used r)) \<noteq> 0"
  shows "unat (used r + (fst (std_align al n (buffer r + used r) (buffer_size r - used r)) - (buffer r + used r)) + n)
           = unat (used r) + unat (fst (std_align al n (buffer r + used r) (buffer_size r - used r)) - (buffer r + used r)) + unat n"
    and "unat (used r) + unat (fst (std_align al n (buffer r + used r) (buffer_size r - used r)) - (buffer r + used r)) + unat n
           \<le> unat (buffer_size r)"
proof -
  let ?p = "buffer r + used r" and ?s = "buffer_size r - used r"
  let ?a = "fst (std_align al n ?p ?s)"
  have e: "?a = (?p - 1 + al) AND - al" and le: "n \<le> ?s" and d: "((?p - 1 + al) AND - al) - ?p \<le> ?s - n"
    using std_align_fst_nonzero [OF a] by simp_all
  have "unat (?a - ?p) + unat n \<le> unat ?s"
    unfolding e using le d by (rule std_align_room)
  moreover have "unat ?s = unat (buffer_size r) - unat (used r)" using u by (rule unat_sub)
  moreover have uu: "unat (used r) \<le> unat (buffer_size r)" using u by (simp add: word_le_nat_alt)
  ultimately show b: "unat (used r) + unat (?a - ?p) + unat n \<le> unat (buffer_size r)" by simp
  have "unat (buffer_size r) < 2 ^ 64" using unsigned_less [of "buffer_size r"] by simp
  with b have "unat (used r) + unat (?a - ?p) + unat n < 2 ^ 64" by simp
  thus "unat (used r + (?a - ?p) + n) = unat (used r) + unat (?a - ?p) + unat n"
    by (rule unat_add3)
qed

lemma do_allocate_bump:
  assumes u: "used r \<le> buffer_size r"
      and none: "scan_free_list n al [] (free_list r) = None"
  shows "do_allocate n al r =
           (if fst (std_align al n (buffer r + used r) (buffer_size r - used r)) = 0 then Inl bad_alloc
            else Inr (fst (std_align al n (buffer r + used r) (buffer_size r - used r)),
                      r\<lparr>used := fst (std_align al n (buffer r + used r) (buffer_size r - used r)) + n - buffer r\<rparr>))"
proof (cases "fst (std_align al n (buffer r + used r) (buffer_size r - used r)) = 0")
  case True
  thus ?thesis using none
    by (cases "std_align al n (buffer r + used r) (buffer_size r - used r)") (simp add: do_allocate_def)
next
  case False
  let ?a = "fst (std_align al n (buffer r + used r) (buffer_size r - used r))"
  have "unat (used r + (?a - (buffer r + used r)) + n) \<le> unat (buffer_size r)"
    using bump_used [OF u False] by simp
  hence ok: "\<not> used r + (?a - (buffer r + used r)) + n > buffer_size r"
    by (simp add: word_le_nat_alt not_less)
  have eq: "used r + (?a - (buffer r + used r)) + n = ?a + n - buffer r" by simp
  show ?thesis using none False ok
    by (cases "std_align al n (buffer r + used r) (buffer_size r - used r)")
       (simp add: do_allocate_def Let_def)
qed

lemma block_fits_iff:
  assumes "block_ok b" and "k < 64"
  shows "block_fits (2 ^ k) n b \<longleftrightarrow> fst (std_align (2 ^ k) n (fst b) (snd b)) \<noteq> 0"
  using assms std_align_fits_iff [of k "fst b" "snd b" n] unat_pow2 [of k]
  by (simp add: block_fits_def block_ok_def)


lemma std_align_within:
  assumes k: "k < 64" and nw: "unat p + unat s < 2 ^ 64"
      and a: "fst (std_align (2 ^ k) n p s) \<noteq> 0"
  shows "unat p \<le> unat (fst (std_align (2 ^ k) n p s))"
    and "unat (fst (std_align (2 ^ k) n p s)) + unat n \<le> unat p + unat s"
    and "unat (fst (std_align (2 ^ k) n p s)) < unat p + 2 ^ k"
proof -
  let ?a = "(p - 1 + 2 ^ k) AND - (2 ^ k)"
  have e: "fst (std_align (2 ^ k) n p s) = ?a" and le: "n \<le> s" and d: "?a - p \<le> s - n"
    using std_align_fst_nonzero [OF a] by simp_all
  have u: "unat ?a = unat p + unat (?a - p)" by (rule std_align_success_unat(1) [OF nw le d])
  have r: "unat (?a - p) + unat n \<le> unat s" using le d by (rule std_align_room)
  have l: "unat (?a - p) < 2 ^ k" by (rule align_up_diff_less)
  show "unat p \<le> unat (fst (std_align (2 ^ k) n p s))" unfolding e using u by simp
  show "unat (fst (std_align (2 ^ k) n p s)) + unat n \<le> unat p + unat s" unfolding e using u r by simp
  show "unat (fst (std_align (2 ^ k) n p s)) < unat p + 2 ^ k" unfolding e using u l by simp
qed

lemma resource_ok_unat:
  assumes "resource_ok r"
  shows "unat (buffer r + used r) = unat (buffer r) + unat (used r)"
    and "unat (buffer_size r - used r) = unat (buffer_size r) - unat (used r)"
    and "unat (used r) \<le> unat (buffer_size r)"
    and "unat (buffer r) + unat (buffer_size r) < 2 ^ 64"
    and "buffer r + used r \<noteq> 0"
proof -
  have u: "used r \<le> buffer_size r" and b0: "buffer r \<noteq> 0"
    and nw: "unat (buffer r) + unat (buffer_size r) < 2 ^ 64"
    using assms by (simp_all add: resource_ok_def block_ok_def)
  show uu: "unat (used r) \<le> unat (buffer_size r)" using u by (simp add: word_le_nat_alt)
  show "unat (buffer r) + unat (buffer_size r) < 2 ^ 64" by (rule nw)
  show "unat (buffer_size r - used r) = unat (buffer_size r) - unat (used r)" using u by (rule unat_sub)
  have "unat (buffer r) + unat (used r) < 2 ^ 64" using uu nw by simp
  thus s: "unat (buffer r + used r) = unat (buffer r) + unat (used r)"
    using unat_add_lem [THEN iffD1, of "buffer r" "used r"] by simp
  have "0 < unat (buffer r)" using b0 by (simp add: unat_gt_0)
  hence "unat (buffer r + used r) \<noteq> 0" using s by simp
  thus "buffer r + used r \<noteq> 0" by auto
qed

lemma bump_fits_iff:
  assumes ok: "resource_ok r" and k: "k < 64"
  shows "bump_fits (2 ^ k) n r \<longleftrightarrow>
           fst (std_align (2 ^ k) n (buffer r + used r) (buffer_size r - used r)) \<noteq> 0"
proof -
  note f = resource_ok_unat [OF ok]
  have nw: "unat (buffer r + used r) + unat (buffer_size r - used r) < 2 ^ 64"
    using f by simp
  have e: "unat (buffer r + used r) + unat (buffer_size r - used r) = unat (buffer r) + unat (buffer_size r)"
    using f by simp
  have "fst (std_align (2 ^ k) n (buffer r + used r) (buffer_size r - used r)) \<noteq> 0 \<longleftrightarrow>
          aligned_span_fits (2 ^ k) (unat n) (unat (buffer r + used r)) (unat (buffer r) + unat (buffer_size r))"
    using std_align_fits_iff [OF k nw f(5), of n] unfolding e .
  thus ?thesis
    using unat_pow2 [OF k] f(1) by (simp add: bump_fits_def)
qed

lemma step_frame:
  assumes u: "used r \<le> buffer_size r"
  shows "buffer (step c r) = buffer r \<and> buffer_size (step c r) = buffer_size r \<and>
         used r \<le> used (step c r) \<and> used (step c r) \<le> buffer_size r"
proof (cases c)
  case (Deallocate p bytes alignment)
  thus ?thesis using u by (simp add: do_deallocate_def)
next
  case (Allocate bytes alignment)
  show ?thesis
  proof (cases "do_allocate bytes alignment r")
    case (Inl e)
    thus ?thesis using Allocate u by simp
  next
    case (Inr x)
    obtain a r' where x: "x = (a, r')" by (cases x)
    have st: "step c r = r'" using Allocate Inr x by simp
    from do_allocate_cases [OF Inr [unfolded x]] show ?thesis
    proof
      assume "\<exists>fl'. scan_free_list bytes alignment [] (free_list r) = Some (a, fl') \<and> r' = r\<lparr>free_list := fl'\<rparr>"
      thus ?thesis using st u by auto
    next
      assume h: "scan_free_list bytes alignment [] (free_list r) = None \<and>
          a = fst (std_align alignment bytes (buffer r + used r) (buffer_size r - used r)) \<and> a \<noteq> 0 \<and>
          \<not> used r + (a - (buffer r + used r)) + bytes > buffer_size r \<and>
          r' = r\<lparr>used := used r + (a - (buffer r + used r)) + bytes\<rparr>"
      hence a: "a = fst (std_align alignment bytes (buffer r + used r) (buffer_size r - used r))"
        and a0: "a \<noteq> 0"
        and le: "\<not> used r + (a - (buffer r + used r)) + bytes > buffer_size r"
        and r': "r' = r\<lparr>used := used r + (a - (buffer r + used r)) + bytes\<rparr>"
        by blast+
      have nz: "fst (std_align alignment bytes (buffer r + used r) (buffer_size r - used r)) \<noteq> 0"
        using a a0 by blast
      have "unat (used r + (a - (buffer r + used r)) + bytes) =
              unat (used r) + unat (a - (buffer r + used r)) + unat bytes"
        using bump_used(1) [OF u nz] unfolding a [symmetric] .
      hence "unat (used r) \<le> unat (used r + (a - (buffer r + used r)) + bytes)"
        by simp
      hence "used r \<le> used r + (a - (buffer r + used r)) + bytes"
        by (simp only: word_le_nat_alt)
      moreover have "used r + (a - (buffer r + used r)) + bytes \<le> buffer_size r"
        using le by (simp only: not_less)
      ultimately show ?thesis using st r' by simp
    qed
  qed
qed

lemma run_calls_frame:
  assumes "used r \<le> buffer_size r"
  shows "buffer (run_calls cs r) = buffer r \<and> buffer_size (run_calls cs r) = buffer_size r \<and>
         used r \<le> used (run_calls cs r) \<and> used (run_calls cs r) \<le> buffer_size r"
  using assms
proof (induction cs arbitrary: r)
  case Nil
  thus ?case by simp
next
  case (Cons c cs)
  note s = step_frame [OF Cons.prems, of c]
  hence "used (step c r) \<le> buffer_size (step c r)" by simp
  from Cons.IH [OF this] s show ?case by auto
qed

section \<open>Chains in the store\<close>

lemma chain_update_other:
  "q \<notin> fst ` set ns \<Longrightarrow> chain (h(q := x)) p ns = chain h p ns"
proof (induction ns arbitrary: p)
  case Nil
  show ?case by simp
next
  case (Cons n ns)
  obtain a v where n: "n = (a, v)" by (cases n)
  have "q \<noteq> a" and "q \<notin> fst ` set ns" using Cons.prems n by auto
  thus ?case using Cons.IH n by (simp split: option.splits)
qed

lemma iterate_chain:
  "chain h p ns \<Longrightarrow> iterate h p out = Some (out @ map snd ns)"
proof (induction ns arbitrary: p out)
  case Nil
  thus ?case by (subst iterate.simps) simp
next
  case (Cons n ns)
  obtain a v where n: "n = (a, v)" by (cases n)
  from Cons.prems n obtain nd where
    p: "p = a" "a \<noteq> 0" "h a = Some nd" "node_value nd = v" "chain h (node_next nd) ns"
    by (auto split: option.splits)
  have "iterate h p out = iterate h (node_next nd) (out @ [v])"
    using p by (subst iterate.simps) simp
  also have "\<dots> = Some ((out @ [v]) @ map snd ns)" by (rule Cons.IH [OF p(5)])
  finally show ?case using n by simp
qed

lemma spans_apart_unat:
  "spans_apart n (map unat (as :: addr list)) \<longleftrightarrow>
     distinct as \<and> (\<forall>a \<in> set as. \<forall>b \<in> set as. a = b \<or> unat a + n \<le> unat b \<or> unat b + n \<le> unat a)"
proof -
  have "inj_on unat (set as)" by (rule inj_onI) (simp add: word_unat_eq_iff)
  hence "distinct (map unat as) = distinct as" by (simp add: distinct_map)
  thus ?thesis by (auto simp: spans_apart_def word_unat_eq_iff)
qed


section \<open>The resource under a stack\<close>

text \<open>
  A stack asks for blocks of one size and one alignment and gives back what it got, so
  every registered block is a whole aligned node: the scan serves the request with the
  block itself and no remainder, the bump serves it behind everything committed.
\<close>

lemma pool_inv_iff:
  "pool_inv nsz nal r L \<longleftrightarrow>
     resource_ok r \<and> (\<forall>b \<in> set (free_list r). snd b = nsz) \<and>
     (\<forall>a \<in> set L \<union> fst ` set (free_list r).
         unat a mod unat nal = 0 \<and> unat (buffer r) \<le> unat a \<and>
         unat a + unat nsz \<le> unat (buffer r) + unat (used r)) \<and>
     distinct L \<and> distinct (map fst (free_list r)) \<and> set L \<inter> fst ` set (free_list r) = {} \<and>
     (\<forall>a \<in> set L \<union> fst ` set (free_list r). \<forall>b \<in> set L \<union> fst ` set (free_list r).
         a = b \<or> unat a + unat nsz \<le> unat b \<or> unat b + unat nsz \<le> unat a)"
  unfolding pool_inv_def Let_def spans_apart_unat list_all_iff
  by (simp add: Ball_def)

lemma pool_invD:
  assumes "pool_inv nsz nal r L"
  shows "resource_ok r"
    and "\<forall>b \<in> set (free_list r). snd b = nsz"
    and "\<forall>a \<in> set L \<union> fst ` set (free_list r).
         unat a mod unat nal = 0 \<and> unat (buffer r) \<le> unat a \<and>
         unat a + unat nsz \<le> unat (buffer r) + unat (used r)"
    and "distinct L" and "distinct (map fst (free_list r))"
    and "set L \<inter> fst ` set (free_list r) = {}"
    and "\<forall>a \<in> set L \<union> fst ` set (free_list r). \<forall>b \<in> set L \<union> fst ` set (free_list r).
         a = b \<or> unat a + unat nsz \<le> unat b \<or> unat b + unat nsz \<le> unat a"
proof -
  note h = assms [unfolded pool_inv_iff]
  show "resource_ok r" by (rule h [THEN conjunct1])
  note h = h [THEN conjunct2]
  show "\<forall>b \<in> set (free_list r). snd b = nsz" by (rule h [THEN conjunct1])
  note h = h [THEN conjunct2]
  show "\<forall>a \<in> set L \<union> fst ` set (free_list r).
         unat a mod unat nal = 0 \<and> unat (buffer r) \<le> unat a \<and>
         unat a + unat nsz \<le> unat (buffer r) + unat (used r)" by (rule h [THEN conjunct1])
  note h = h [THEN conjunct2]
  show "distinct L" by (rule h [THEN conjunct1])
  note h = h [THEN conjunct2]
  show "distinct (map fst (free_list r))" by (rule h [THEN conjunct1])
  note h = h [THEN conjunct2]
  show "set L \<inter> fst ` set (free_list r) = {}" by (rule h [THEN conjunct1])
  show "\<forall>a \<in> set L \<union> fst ` set (free_list r). \<forall>b \<in> set L \<union> fst ` set (free_list r).
         a = b \<or> unat a + unat nsz \<le> unat b \<or> unat b + unat nsz \<le> unat a"
    by (rule h [THEN conjunct2])
qed


lemma pool_deallocate:
  assumes "pool_inv nsz nal r (a # L)"
  shows "a \<noteq> 0" and "pool_inv nsz nal (do_deallocate a nsz nal r) L"
proof -
  have ok: "resource_ok r" and lo: "unat (buffer r) \<le> unat a"
    using assms by (simp_all add: pool_inv_iff)
  have "0 < unat (buffer r)" using ok by (simp add: resource_ok_def block_ok_def unat_gt_0)
  hence "unat a \<noteq> 0" using lo by simp
  thus a0: "a \<noteq> 0" by auto
  hence d: "do_deallocate a nsz nal r = r\<lparr>free_list := free_list r @ [(a, nsz)]\<rparr>"
    by (simp add: do_deallocate_def)
  show "pool_inv nsz nal (do_deallocate a nsz nal r) L"
    using assms unfolding d pool_inv_iff
    by (simp add: resource_ok_def Ball_def)
qed






section \<open>Push and pop keep the invariant\<close>

lemma stack_inv_contents:
  "stack_inv nsz nal s ns \<Longrightarrow> contents s = Some (map snd ns)"
  using iterate_chain [of "nodes s" "top_node s" ns "[]"]
  by (simp add: stack_inv_def contents_def)

lemma pop_empty:
  "stack_inv nsz nal s [] \<Longrightarrow> pop nsz nal s = Inr s"
  by (simp add: stack_inv_def pop_def)

lemma pop_node:
  assumes inv: "stack_inv nsz nal s ((a, v) # rest)"
  shows "\<exists>n. top_node s = a \<and> a \<noteq> 0 \<and> nodes s a = Some n \<and> node_value n = v \<and>
             top s = Inr v \<and>
             pop nsz nal s =
               Inr (s\<lparr>top_node := node_next n, nodes := (nodes s)(a := None),
                      resource := (resource s)\<lparr>free_list := free_list (resource s) @ [(a, nsz)]\<rparr>\<rparr>) \<and>
             stack_inv nsz nal
               (s\<lparr>top_node := node_next n, nodes := (nodes s)(a := None),
                  resource := (resource s)\<lparr>free_list := free_list (resource s) @ [(a, nsz)]\<rparr>\<rparr>) rest"
proof -
  have ch: "chain (nodes s) (top_node s) ((a, v) # rest)"
    and pool: "pool_inv nsz nal (resource s) (a # map fst rest)"
    using inv by (simp_all add: stack_inv_def)
  from ch obtain n where t: "top_node s = a" and a0: "a \<noteq> 0" and n: "nodes s a = Some n"
    and nv: "node_value n = v" and rest: "chain (nodes s) (node_next n) rest"
    by (auto split: option.splits)
  have "distinct (a # map fst rest)" by (rule pool_invD(4) [OF pool])
  hence "a \<notin> fst ` set rest" by simp
  hence ch': "chain ((nodes s)(a := None)) (node_next n) rest"
    using rest by (simp add: chain_update_other)
  have dl: "do_deallocate a nsz nal (resource s) =
              (resource s)\<lparr>free_list := free_list (resource s) @ [(a, nsz)]\<rparr>"
    using a0 by (simp add: do_deallocate_def)
  have pool': "pool_inv nsz nal ((resource s)\<lparr>free_list := free_list (resource s) @ [(a, nsz)]\<rparr>) (map fst rest)"
    using pool_deallocate(2) [OF pool] unfolding dl .
  have p: "pop nsz nal s =
               Inr (s\<lparr>top_node := node_next n, nodes := (nodes s)(a := None),
                      resource := (resource s)\<lparr>free_list := free_list (resource s) @ [(a, nsz)]\<rparr>\<rparr>)"
    using t a0 n dl by (simp add: pop_def Let_def)
  have tp: "top s = Inr v" using t a0 n nv by (simp add: top_def)
  have "stack_inv nsz nal
               (s\<lparr>top_node := node_next n, nodes := (nodes s)(a := None),
                  resource := (resource s)\<lparr>free_list := free_list (resource s) @ [(a, nsz)]\<rparr>\<rparr>) rest"
    using ch' pool' by (simp add: stack_inv_def)
  thus ?thesis using t a0 n nv tp p by blast
qed






section \<open>Deallocation\<close>

text \<open>
  C10: for every \<open>bytes\<close> and \<open>alignment\<close>, \<^verbatim>\<open>deallocate\<close> of the null address returns at
  once: the resource (registry, \<open>used\<close>, buffer) is what it was.
\<close>

theorem deallocate_null_noop: "do_deallocate 0 bytes alignment r = r"
  by (simp add: do_deallocate_def)

text \<open>
  C7, as the code has it: every \<^verbatim>\<open>deallocate\<close> of an address that is not null appends the
  pair of the address and the size at the end of the registry. Nothing is checked about
  the address, the size or the alignment, the entries already there are kept as they are
  (nothing is merged), and \<open>used\<close> and the buffer do not change.
\<close>

theorem deallocate_appends:
  "p \<noteq> 0 \<Longrightarrow> do_deallocate p bytes alignment r = r\<lparr>free_list := free_list r @ [(p, bytes)]\<rparr>"
  by (simp add: do_deallocate_def)

theorem deallocate_appends_witness:
  "(4096::addr) \<noteq> 0 \<and>
   do_deallocate 4096 64 8 \<lparr>buffer = 4096, buffer_size = 256, used = 64, free_list = [(4160, 8)]\<rparr>
     = \<lparr>buffer = 4096, buffer_size = 256, used = 64, free_list = [(4160, 8), (4096, 64)]\<rparr>"
proof -
  have h: "(4096::addr) \<noteq> 0" by simp
  show ?thesis using h deallocate_appends [OF h, of 64 8 "\<lparr>buffer = 4096, buffer_size = 256, used = 64, free_list = [(4160, 8)]\<rparr>"] by simp
qed

text \<open>
  C7 as stated (every call appends, unconditionally) fails at the null address: the
  guard of line 21 returns before the \<^verbatim>\<open>emplace_back\<close>.
\<close>

theorem deallocate_unconditional_counterexample:
  "free_list (do_deallocate 0 64 8 \<lparr>buffer = 4096, buffer_size = 256, used = 64, free_list = []\<rparr>)
     \<noteq> free_list \<lparr>buffer = 4096, buffer_size = 256, used = 64, free_list = []\<rparr> @ [(0, 64)]"
  by (simp add: do_deallocate_def)

section \<open>Allocation\<close>

text \<open>
  C8: for every successful \<^verbatim>\<open>allocate(bytes, alignment)\<close> with \<open>alignment\<close> a power of two
  \<open>2 ^ k\<close> (\<open>k < 64\<close>, so \<open>1, 2, 4, 8, 16, 32\<close> among them), the returned address is a
  multiple of \<open>alignment\<close>, from the registry and from the bump alike.
\<close>

theorem allocate_result_aligned:
  assumes "k < 64" and "do_allocate bytes (2 ^ k) r = Inr (a, r')"
  shows "unat a mod unat (2 ^ k :: size_t) = 0"
  using do_allocate_cases [OF assms(2)]
proof
  assume "\<exists>fl'. scan_free_list bytes (2 ^ k) [] (free_list r) = Some (a, fl') \<and> r' = r\<lparr>free_list := fl'\<rparr>"
  then obtain fl' where "scan_free_list bytes (2 ^ k) [] (free_list r) = Some (a, fl')" by blast
  from scan_SomeD [OF this] obtain p sz where
    "fst (std_align (2 ^ k) bytes p sz) \<noteq> 0" "a = fst (std_align (2 ^ k) bytes p sz)" by blast
  thus ?thesis using std_align_result_aligned [OF assms(1)] by simp
next
  assume "scan_free_list bytes (2 ^ k) [] (free_list r) = None \<and>
          a = fst (std_align (2 ^ k) bytes (buffer r + used r) (buffer_size r - used r)) \<and> a \<noteq> 0 \<and>
          \<not> used r + (a - (buffer r + used r)) + bytes > buffer_size r \<and>
          r' = r\<lparr>used := used r + (a - (buffer r + used r)) + bytes\<rparr>"
  hence "a = fst (std_align (2 ^ k) bytes (buffer r + used r) (buffer_size r - used r))" "a \<noteq> 0"
    by blast+
  thus ?thesis
    using std_align_result_aligned [OF assms(1), of bytes "buffer r + used r" "buffer_size r - used r"]
    by simp
qed

theorem allocate_result_aligned_witness:
  "(3::nat) < 64 \<and>
   do_allocate 8 (2 ^ 3) \<lparr>buffer = 4096, buffer_size = 32, used = 32, free_list = [(4097, 31)]\<rparr>
     = Inr (4104, \<lparr>buffer = 4096, buffer_size = 32, used = 32, free_list = [(4112, 23)]\<rparr>) \<and>
   do_allocate 8 (2 ^ 3) \<lparr>buffer = 4096, buffer_size = 32, used = 1, free_list = []\<rparr>
     = Inr (4104, \<lparr>buffer = 4096, buffer_size = 32, used = 16, free_list = []\<rparr>) \<and>
   unat (4104 :: addr) mod unat (2 ^ 3 :: size_t) = 0"
proof -
  have k: "(3::nat) < 64" by simp
  have a: "do_allocate 8 (2 ^ 3) \<lparr>buffer = 4096, buffer_size = 32, used = 32, free_list = [(4097, 31)]\<rparr>
     = Inr (4104, \<lparr>buffer = 4096, buffer_size = 32, used = 32, free_list = [(4112, 23)]\<rparr>)"
    by (simp add: do_allocate_def std_align_def Let_def)
  have b: "do_allocate 8 (2 ^ 3) \<lparr>buffer = 4096, buffer_size = 32, used = 1, free_list = []\<rparr>
     = Inr (4104, \<lparr>buffer = 4096, buffer_size = 32, used = 16, free_list = []\<rparr>)"
    by (simp add: do_allocate_def std_align_def Let_def)
  show ?thesis using k a b allocate_result_aligned [OF k a] by simp
qed

text \<open>
  C1: for \<^verbatim>\<open>allocate(bytes, alignment)\<close> with \<open>alignment\<close> a power of two, on a constructed
  resource whose registered blocks are spans of memory. The registry is scanned in its
  order: when \<open>b\<close> is the first registered block that can contain an aligned span of
  \<open>bytes\<close> bytes, the call returns the first aligned address at or after the start of \<open>b\<close>,
  the span of \<open>bytes\<close> bytes at it lies inside \<open>b\<close>, and \<open>used\<close> is untouched. Only when no
  registered block fits does the call bump: if an aligned span of \<open>bytes\<close> bytes fits
  between \<open>buffer + used\<close> and \<open>buffer + capacity\<close>, it returns the first aligned address
  \<open>a\<close> at or after \<open>buffer + used\<close> and sets \<open>used\<close> to \<open>a + bytes - buffer\<close>; otherwise it
  throws \<^verbatim>\<open>bad_alloc\<close>. (The theorem needs no \<open>bytes > 0\<close>.)
\<close>

theorem allocate_first_fit_then_bump:
  assumes k: "k < 64" and al: "alignment = 2 ^ k"
      and blocks: "list_all block_ok (free_list r)" and ok: "resource_ok r"
  shows "(\<forall>xs b ys.
            free_list r = xs @ b # ys \<and> (\<forall>x \<in> set xs. \<not> block_fits alignment bytes x) \<and>
            block_fits alignment bytes b \<longrightarrow>
            (\<exists>a r'. do_allocate bytes alignment r = Inr (a, r') \<and>
                    unat a mod unat alignment = 0 \<and>
                    unat (fst b) \<le> unat a \<and> unat a < unat (fst b) + unat alignment \<and>
                    unat a + unat bytes \<le> unat (fst b) + unat (snd b) \<and>
                    used r' = used r)) \<and>
         ((\<forall>x \<in> set (free_list r). \<not> block_fits alignment bytes x) \<longrightarrow>
            (if bump_fits alignment bytes r
             then \<exists>a. do_allocate bytes alignment r = Inr (a, r\<lparr>used := a + bytes - buffer r\<rparr>) \<and>
                      unat a mod unat alignment = 0 \<and>
                      unat (buffer r) + unat (used r) \<le> unat a \<and>
                      unat a < unat (buffer r) + unat (used r) + unat alignment \<and>
                      unat a + unat bytes \<le> unat (buffer r) + unat (buffer_size r)
             else do_allocate bytes alignment r = Inl bad_alloc))"
proof (intro conjI allI impI)
  fix xs b ys
  assume h: "free_list r = xs @ b # ys \<and> (\<forall>x \<in> set xs. \<not> block_fits alignment bytes x) \<and>
            block_fits alignment bytes b"
  obtain p sz where b: "b = (p, sz)" by (cases b)
  have bok: "block_ok (p, sz)" and xok: "\<forall>x \<in> set xs. block_ok x"
    using blocks h b by (simp_all add: list_all_iff)
  have miss: "\<forall>x \<in> set xs. fst (std_align (2 ^ k) bytes (fst x) (snd x)) = 0"
    using h xok block_fits_iff [OF _ k, of _ bytes] al by blast
  have hit: "fst (std_align (2 ^ k) bytes p sz) \<noteq> 0"
    using h b block_fits_iff [OF bok k, of bytes] al by simp
  let ?a = "fst (std_align (2 ^ k) bytes p sz)"
  have nw: "unat p + unat sz < 2 ^ 64" using bok by (simp add: block_ok_def)
  have sc: "scan_free_list bytes (2 ^ k) [] (free_list r) =
           Some (?a, ([] @ xs @ ys) @ (if sz - bytes > 0 then [(?a + bytes, sz - bytes)] else []))"
    using h b scan_hit [OF miss hit, of "[]" ys] by simp
  have "do_allocate bytes alignment r =
          Inr (?a, r\<lparr>free_list := ([] @ xs @ ys) @ (if sz - bytes > 0 then [(?a + bytes, sz - bytes)] else [])\<rparr>)"
    unfolding al do_allocate_def sc by simp
  moreover have "unat ?a mod unat alignment = 0"
    unfolding al by (rule std_align_result_aligned [OF k hit])
  moreover have "unat (fst b) \<le> unat ?a" "unat ?a + unat bytes \<le> unat (fst b) + unat (snd b)"
     "unat ?a < unat (fst b) + unat alignment"
    using std_align_within [OF k nw hit] b al unat_pow2 [OF k] by simp_all
  ultimately show "\<exists>a r'. do_allocate bytes alignment r = Inr (a, r') \<and>
                    unat a mod unat alignment = 0 \<and>
                    unat (fst b) \<le> unat a \<and> unat a < unat (fst b) + unat alignment \<and>
                    unat a + unat bytes \<le> unat (fst b) + unat (snd b) \<and>
                    used r' = used r"
    by simp
next
  assume none: "\<forall>x \<in> set (free_list r). \<not> block_fits alignment bytes x"
  have "\<forall>x \<in> set (free_list r). block_ok x" using blocks by (simp add: list_all_iff)
  hence miss: "\<forall>x \<in> set (free_list r). fst (std_align (2 ^ k) bytes (fst x) (snd x)) = 0"
    using none block_fits_iff [OF _ k, of _ bytes] al by blast
  have sc: "scan_free_list bytes (2 ^ k) [] (free_list r) = None" using miss by (rule scan_miss)
  have u: "used r \<le> buffer_size r" using ok by (simp add: resource_ok_def)
  note f = resource_ok_unat [OF ok]
  let ?a = "fst (std_align (2 ^ k) bytes (buffer r + used r) (buffer_size r - used r))"
  show "if bump_fits alignment bytes r
             then \<exists>a. do_allocate bytes alignment r = Inr (a, r\<lparr>used := a + bytes - buffer r\<rparr>) \<and>
                      unat a mod unat alignment = 0 \<and>
                      unat (buffer r) + unat (used r) \<le> unat a \<and>
                      unat a < unat (buffer r) + unat (used r) + unat alignment \<and>
                      unat a + unat bytes \<le> unat (buffer r) + unat (buffer_size r)
             else do_allocate bytes alignment r = Inl bad_alloc"
  proof (cases "?a = 0")
    case True
    hence "\<not> bump_fits alignment bytes r" using bump_fits_iff [OF ok k, of bytes] al by simp
    moreover have "do_allocate bytes alignment r = Inl bad_alloc"
      unfolding al using do_allocate_bump [OF u sc] True by simp
    ultimately show ?thesis by simp
  next
    case False
    hence bf: "bump_fits alignment bytes r" using bump_fits_iff [OF ok k, of bytes] al by simp
    have nw: "unat (buffer r + used r) + unat (buffer_size r - used r) < 2 ^ 64" using f by simp
    have "do_allocate bytes alignment r = Inr (?a, r\<lparr>used := ?a + bytes - buffer r\<rparr>)"
      unfolding al using do_allocate_bump [OF u sc] False by simp
    moreover have "unat ?a mod unat alignment = 0"
      unfolding al by (rule std_align_result_aligned [OF k False])
    moreover have "unat (buffer r) + unat (used r) \<le> unat ?a"
      "unat ?a < unat (buffer r) + unat (used r) + unat alignment"
      "unat ?a + unat bytes \<le> unat (buffer r) + unat (buffer_size r)"
      using std_align_within [OF k nw False] f al unat_pow2 [OF k] by simp_all
    ultimately show ?thesis using bf by simp
  qed
qed

theorem allocate_first_fit_then_bump_witness:
  "(3::nat) < 64 \<and> (8::size_t) = 2 ^ 3 \<and>
   list_all block_ok (free_list \<lparr>buffer = 4096, buffer_size = 64, used = 32, free_list = [(4097, 4), (4105, 20)]\<rparr>) \<and>
   resource_ok \<lparr>buffer = 4096, buffer_size = 64, used = 32, free_list = [(4097, 4), (4105, 20)]\<rparr> \<and>
   \<not> block_fits 8 8 (4097, 4) \<and> block_fits 8 8 (4105, 20) \<and>
   (\<exists>a r'. do_allocate 8 8 \<lparr>buffer = 4096, buffer_size = 64, used = 32, free_list = [(4097, 4), (4105, 20)]\<rparr> = Inr (a, r') \<and>
      unat a mod unat (8::size_t) = 0 \<and> unat (4105::addr) \<le> unat a \<and> unat a < unat (4105::addr) + unat (8::size_t) \<and>
      unat a + unat (8::size_t) \<le> unat (4105::addr) + unat (20::size_t) \<and> used r' = 32) \<and>
   do_allocate 8 8 \<lparr>buffer = 4096, buffer_size = 64, used = 32, free_list = [(4097, 4), (4105, 20)]\<rparr>
     = Inr (4112, \<lparr>buffer = 4096, buffer_size = 64, used = 32, free_list = [(4097, 4), (4120, 12)]\<rparr>)"
proof -
  let ?r = "\<lparr>buffer = 4096, buffer_size = 64, used = 32, free_list = [(4097, 4), (4105, 20)]\<rparr>"
  have k: "(3::nat) < 64" by simp
  have al: "(8::size_t) = 2 ^ 3" by simp
  have blocks: "list_all block_ok (free_list ?r)" by (simp add: block_ok_def)
  have ok: "resource_ok ?r" by (simp add: resource_ok_def block_ok_def)
  have n1: "\<not> block_fits 8 8 (4097, 4)" by (auto simp: block_fits_def aligned_span_fits_def)
  have "(4112::nat) \<in> {4105..4125} \<and> 8 dvd (4112::nat) \<and> (4112::nat) + 8 \<le> 4125" by simp
  hence f2: "block_fits 8 8 (4105, 20)" unfolding block_fits_def aligned_span_fits_def
    by (simp only: fst_conv snd_conv) (rule bexI [of _ 4112], simp_all)
  have split: "free_list ?r = [(4097, 4)] @ (4105, 20) # [] \<and>
      (\<forall>x \<in> set [(4097, 4)]. \<not> block_fits 8 8 x) \<and> block_fits 8 8 (4105, 20)"
    using n1 f2 by simp
  have ev: "do_allocate 8 8 ?r = Inr (4112, \<lparr>buffer = 4096, buffer_size = 64, used = 32, free_list = [(4097, 4), (4120, 12)]\<rparr>)"
    by (simp add: do_allocate_def std_align_def Let_def)
  note th = allocate_first_fit_then_bump [OF k al blocks ok, of 8, THEN conjunct1, rule_format, OF split]
  show ?thesis using k blocks ok n1 f2 ev th by simp
qed

text \<open>
  C2, the code at a failing input. On a resource of 32 bytes at address 4096, the calls
  \<^verbatim>\<open>allocate(1,1)\<close>, \<^verbatim>\<open>allocate(31,1)\<close>, \<^verbatim>\<open>deallocate(4097,31,1)\<close> leave the block
  \<open>(4097, 31)\<close> in the registry. \<^verbatim>\<open>allocate(8,8)\<close> then returns 4104, seven bytes into the
  block, and registers the remainder \<open>(4112, 23)\<close>: the size is \<open>31 - 8\<close>, not
  \<open>31 - 7 - 8 = 16\<close>, because \<^verbatim>\<open>std::align\<close> has moved \<^verbatim>\<open>ptr\<close> to the aligned address
  before line 37 computes \<^verbatim>\<open>wasted\<close> from it.
\<close>

theorem registry_remainder_at_failing_input:
  "run_calls [Allocate 1 1, Allocate 31 1, Deallocate 4097 31 1]
       \<lparr>buffer = 4096, buffer_size = 32, used = 0, free_list = []\<rparr>
     = \<lparr>buffer = 4096, buffer_size = 32, used = 32, free_list = [(4097, 31)]\<rparr> \<and>
   do_allocate 8 8 \<lparr>buffer = 4096, buffer_size = 32, used = 32, free_list = [(4097, 31)]\<rparr>
     = Inr (4104, \<lparr>buffer = 4096, buffer_size = 32, used = 32, free_list = [(4112, 23)]\<rparr>)"
  by (simp add: do_allocate_def do_deallocate_def std_align_def Let_def)

text \<open>
  C3: on a constructed resource of capacity \<open>C > 0\<close> (the contract of \<^verbatim>\<open>allocate\<close> asks for
  a size above zero) with an empty registry and \<open>used = 0\<close>, \<^verbatim>\<open>allocate(C, 1)\<close> returns the
  buffer and sets \<open>used\<close> to \<open>C\<close>; a second \<^verbatim>\<open>allocate(C, 1)\<close> and an \<^verbatim>\<open>allocate(1, 1)\<close> then
  throw \<^verbatim>\<open>bad_alloc\<close>. In general an \<^verbatim>\<open>allocate\<close> that no registered block and no bump can
  satisfy throws \<^verbatim>\<open>bad_alloc\<close> and leaves the resource as it was, and no \<^verbatim>\<open>allocate\<close>
  changes the buffer or its capacity.
\<close>

theorem exhaustion_boundary:
  assumes "0 < C" and "b \<noteq> 0"
  shows "do_allocate C 1 \<lparr>buffer = b, buffer_size = C, used = 0, free_list = []\<rparr>
           = Inr (b, \<lparr>buffer = b, buffer_size = C, used = C, free_list = []\<rparr>) \<and>
         do_allocate C 1 \<lparr>buffer = b, buffer_size = C, used = C, free_list = []\<rparr> = Inl bad_alloc \<and>
         do_allocate 1 1 \<lparr>buffer = b, buffer_size = C, used = C, free_list = []\<rparr> = Inl bad_alloc \<and>
         (\<forall>bytes k r. k < 64 \<and> list_all block_ok (free_list r) \<and> resource_ok r \<and>
              (\<forall>x \<in> set (free_list r). \<not> block_fits (2 ^ k) bytes x) \<and> \<not> bump_fits (2 ^ k) bytes r \<longrightarrow>
              do_allocate bytes (2 ^ k) r = Inl bad_alloc \<and> step (Allocate bytes (2 ^ k)) r = r) \<and>
         (\<forall>bytes alignment r. buffer_size (step (Allocate bytes alignment) r) = buffer_size r \<and>
              buffer (step (Allocate bytes alignment) r) = buffer r)"
proof (intro conjI allI impI)
  show "do_allocate C 1 \<lparr>buffer = b, buffer_size = C, used = 0, free_list = []\<rparr>
           = Inr (b, \<lparr>buffer = b, buffer_size = C, used = C, free_list = []\<rparr>)"
    using assms(2) by (simp add: do_allocate_def std_align_def Let_def)
  show "do_allocate C 1 \<lparr>buffer = b, buffer_size = C, used = C, free_list = []\<rparr> = Inl bad_alloc"
    using assms(1) by (simp add: do_allocate_def std_align_def Let_def)
  show "do_allocate 1 1 \<lparr>buffer = b, buffer_size = C, used = C, free_list = []\<rparr> = Inl bad_alloc"
    by (simp add: do_allocate_def std_align_def Let_def)
next
  fix bytes :: size_t and k r
  assume h: "k < 64 \<and> list_all block_ok (free_list r) \<and> resource_ok r \<and>
              (\<forall>x \<in> set (free_list r). \<not> block_fits (2 ^ k) bytes x) \<and> \<not> bump_fits (2 ^ k) bytes r"
  hence k: "k < 64" and ok: "resource_ok r" by simp_all
  have "\<forall>x \<in> set (free_list r). block_ok x" using h by (simp add: list_all_iff)
  hence miss: "\<forall>x \<in> set (free_list r). fst (std_align (2 ^ k) bytes (fst x) (snd x)) = 0"
    using h block_fits_iff [OF _ k, of _ bytes] by blast
  have sc: "scan_free_list bytes (2 ^ k) [] (free_list r) = None" using miss by (rule scan_miss)
  have u: "used r \<le> buffer_size r" using ok by (simp add: resource_ok_def)
  have "fst (std_align (2 ^ k) bytes (buffer r + used r) (buffer_size r - used r)) = 0"
    using h bump_fits_iff [OF ok k, of bytes] by simp
  thus f: "do_allocate bytes (2 ^ k) r = Inl bad_alloc"
    using do_allocate_bump [OF u sc] by simp
  show "step (Allocate bytes (2 ^ k)) r = r" using f by simp
next
  fix bytes alignment r
  show "buffer_size (step (Allocate bytes alignment) r) = buffer_size r"
    by (cases "do_allocate bytes alignment r") (auto dest: do_allocate_cases)
  show "buffer (step (Allocate bytes alignment) r) = buffer r"
    by (cases "do_allocate bytes alignment r") (auto dest: do_allocate_cases)
qed

theorem exhaustion_boundary_witness:
  "(0::size_t) < 32 \<and> (4096::addr) \<noteq> 0 \<and>
   do_allocate 32 1 \<lparr>buffer = 4096, buffer_size = 32, used = 0, free_list = []\<rparr>
           = Inr (4096, \<lparr>buffer = 4096, buffer_size = 32, used = 32, free_list = []\<rparr>) \<and>
   do_allocate 32 1 \<lparr>buffer = 4096, buffer_size = 32, used = 32, free_list = []\<rparr> = Inl bad_alloc \<and>
   do_allocate 1 1 \<lparr>buffer = 4096, buffer_size = 32, used = 32, free_list = []\<rparr> = Inl bad_alloc"
proof -
  have c: "(0::size_t) < 32" and b: "(4096::addr) \<noteq> 0" by simp_all
  show ?thesis using c b exhaustion_boundary [OF c b] by simp
qed

text \<open>
  The part of C9 that holds: after every sequence of calls on a constructed resource, the
  buffer and the capacity are the constructed ones, \<open>used\<close> is at most the capacity, and
  no further call decreases \<open>used\<close>.
\<close>

lemma used_bounded_monotone:
  assumes ctor: "FixedBufferResource_ctor b capacity = Inr r0"
  shows "buffer (run_calls cs r0) = b \<and> buffer_size (run_calls cs r0) = capacity \<and>
         used (run_calls cs r0) \<le> capacity \<and>
         (\<forall>c. used (run_calls cs r0) \<le> used (step c (run_calls cs r0)))"
proof -
  have r0: "r0 = \<lparr>buffer = b, buffer_size = capacity, used = 0, free_list = []\<rparr>"
    using ctor by (auto simp: FixedBufferResource_ctor_def split: if_splits)
  have u0: "used r0 \<le> buffer_size r0" using r0 by simp
  note fr = run_calls_frame [OF u0, of cs]
  have bb: "buffer (run_calls cs r0) = b" and bs: "buffer_size (run_calls cs r0) = capacity"
    and u: "used (run_calls cs r0) \<le> capacity"
    using fr r0 by simp_all
  have "\<forall>c. used (run_calls cs r0) \<le> used (step c (run_calls cs r0))"
    using step_frame [of "run_calls cs r0"] u bs by simp
  thus ?thesis using bb bs u by simp
qed

text \<open>
  C9, the code at a failing input. On a resource of 32 bytes at address 4096, every
  \<^verbatim>\<open>deallocate\<close> matching an earlier \<^verbatim>\<open>allocate\<close>: \<^verbatim>\<open>allocate(1,1)\<close> returns 4096,
  \<^verbatim>\<open>allocate(31,1)\<close> returns 4097, \<^verbatim>\<open>deallocate(4097,31,1)\<close> registers \<open>(4097, 31)\<close>,
  \<^verbatim>\<open>allocate(8,8)\<close> returns 4104 and registers the remainder \<open>(4112, 23)\<close>, seven bytes too
  long (line 37 computes \<^verbatim>\<open>wasted\<close> as 0), \<^verbatim>\<open>allocate(16,16)\<close> returns 4112 and registers
  \<open>(4128, 7)\<close>, and \<^verbatim>\<open>allocate(1,1)\<close> then returns 4128, which is \<open>buffer + capacity\<close> and so
  outside the half-open range of the buffer. \<open>used\<close> stays at 32, the capacity.
\<close>

theorem returned_address_at_failing_input:
  "FixedBufferResource_ctor 4096 32 = Inr \<lparr>buffer = 4096, buffer_size = 32, used = 0, free_list = []\<rparr> \<and>
   run_calls [Allocate 1 1, Allocate 31 1, Deallocate 4097 31 1]
         \<lparr>buffer = 4096, buffer_size = 32, used = 0, free_list = []\<rparr>
     = \<lparr>buffer = 4096, buffer_size = 32, used = 32, free_list = [(4097, 31)]\<rparr> \<and>
   do_allocate 8 8 \<lparr>buffer = 4096, buffer_size = 32, used = 32, free_list = [(4097, 31)]\<rparr>
     = Inr (4104, \<lparr>buffer = 4096, buffer_size = 32, used = 32, free_list = [(4112, 23)]\<rparr>) \<and>
   do_allocate 16 16 \<lparr>buffer = 4096, buffer_size = 32, used = 32, free_list = [(4112, 23)]\<rparr>
     = Inr (4112, \<lparr>buffer = 4096, buffer_size = 32, used = 32, free_list = [(4128, 7)]\<rparr>) \<and>
   do_allocate 1 1 \<lparr>buffer = 4096, buffer_size = 32, used = 32, free_list = [(4128, 7)]\<rparr>
     = Inr (4128, \<lparr>buffer = 4096, buffer_size = 32, used = 32, free_list = [(4129, 6)]\<rparr>) \<and>
   \<not> unat (4128::addr) < unat (4096::addr) + unat (32::size_t)"
  by (simp add: FixedBufferResource_ctor_def do_allocate_def do_deallocate_def std_align_def Let_def)

section \<open>The stack\<close>

text \<open>
  C6: \<^verbatim>\<open>pop()\<close> on the empty stack returns the state as it is and signals nothing. On a
  stack whose head is a constructed node \<open>n\<close>, \<^verbatim>\<open>pop()\<close> sets the head to the \<^verbatim>\<open>next\<close> link
  of \<open>n\<close>, ends the node object (its address holds no node afterwards) and gives the
  address with the size of a node back to the resource, which appends it to the registry.
  On a stack in its invariant that is: the old top value is gone, and the contents are
  the rest of the old contents.
\<close>

theorem pop_detaches_head:
  "(top_node s = 0 \<longrightarrow> pop node_bytes node_align s = Inr s) \<and>
   (\<forall>n. top_node s \<noteq> 0 \<and> nodes s (top_node s) = Some n \<longrightarrow>
        pop node_bytes node_align s =
          Inr (s\<lparr>top_node := node_next n,
                 nodes := (nodes s)(top_node s := None),
                 resource := (resource s)\<lparr>free_list := free_list (resource s) @ [(top_node s, node_bytes)]\<rparr>\<rparr>)) \<and>
   (stack_inv node_bytes node_align s [] \<longrightarrow>
        pop node_bytes node_align s = Inr s \<and> contents s = Some []) \<and>
   (\<forall>a v rest. stack_inv node_bytes node_align s ((a, v) # rest) \<longrightarrow>
        (\<exists>s'. pop node_bytes node_align s = Inr s' \<and> top s = Inr v \<and>
              contents s = Some (v # map snd rest) \<and>
              stack_inv node_bytes node_align s' rest \<and> contents s' = Some (map snd rest)))"
proof (intro conjI allI impI)
  assume "top_node s = 0"
  thus "pop node_bytes node_align s = Inr s" by (simp add: pop_def)
next
  fix n assume "top_node s \<noteq> 0 \<and> nodes s (top_node s) = Some n"
  thus "pop node_bytes node_align s =
          Inr (s\<lparr>top_node := node_next n,
                 nodes := (nodes s)(top_node s := None),
                 resource := (resource s)\<lparr>free_list := free_list (resource s) @ [(top_node s, node_bytes)]\<rparr>\<rparr>)"
    by (simp add: pop_def Let_def do_deallocate_def)
next
  assume e: "stack_inv node_bytes node_align s []"
  show "pop node_bytes node_align s = Inr s" using e by (rule pop_empty)
  show "contents s = Some []" using stack_inv_contents [OF e] by simp
next
  fix a v rest
  assume inv: "stack_inv node_bytes node_align s ((a, v) # rest)"
  from pop_node [OF inv] obtain s' where
    p: "pop node_bytes node_align s = Inr s'" and t: "top s = Inr v"
    and inv': "stack_inv node_bytes node_align s' rest" by blast
  have "contents s = Some (v # map snd rest)" using stack_inv_contents [OF inv] by simp
  moreover have "contents s' = Some (map snd rest)" by (rule stack_inv_contents [OF inv'])
  ultimately show "\<exists>s'. pop node_bytes node_align s = Inr s' \<and> top s = Inr v \<and>
              contents s = Some (v # map snd rest) \<and>
              stack_inv node_bytes node_align s' rest \<and> contents s' = Some (map snd rest)"
    using p t inv' by blast
qed

theorem pop_detaches_head_witness:
  "top_node (empty_stack \<lparr>buffer = 4096, buffer_size = 1024, used = 0, free_list = []\<rparr> :: int world) = 0 \<and>
   pop 16 8 (empty_stack \<lparr>buffer = 4096, buffer_size = 1024, used = 0, free_list = []\<rparr> :: int world)
     = Inr (empty_stack \<lparr>buffer = 4096, buffer_size = 1024, used = 0, free_list = []\<rparr>) \<and>
   stack_inv 16 8
     \<lparr>top_node = 4112,
        resource = \<lparr>buffer = 4096, buffer_size = 1024, used = 32, free_list = []\<rparr>,
        nodes = [4096 \<mapsto> \<lparr>node_value = 10::int, node_next = 0\<rparr>,
                 4112 \<mapsto> \<lparr>node_value = 20, node_next = 4096\<rparr>]\<rparr>
     [(4112, 20), (4096, 10)] \<and>
   (case pop 16 8
      \<lparr>top_node = 4112,
         resource = \<lparr>buffer = 4096, buffer_size = 1024, used = 32, free_list = []\<rparr>,
         nodes = [4096 \<mapsto> \<lparr>node_value = 10::int, node_next = 0\<rparr>,
                  4112 \<mapsto> \<lparr>node_value = 20, node_next = 4096\<rparr>]\<rparr> of
      Inl f \<Rightarrow> False
    | Inr s' \<Rightarrow> top_node s' = 4096 \<and> nodes s' 4112 = None \<and>
                 resource s' = \<lparr>buffer = 4096, buffer_size = 1024, used = 32, free_list = [(4112, 16)]\<rparr> \<and>
                 contents s' = Some [10] \<and> top s' = Inr 10)"
proof -
  let ?e = "empty_stack \<lparr>buffer = 4096, buffer_size = 1024, used = 0, free_list = []\<rparr> :: int world"
  let ?s = "\<lparr>top_node = 4112,
        resource = \<lparr>buffer = 4096, buffer_size = 1024, used = 32, free_list = []\<rparr>,
        nodes = [4096 \<mapsto> \<lparr>node_value = 10::int, node_next = 0\<rparr>,
                 4112 \<mapsto> \<lparr>node_value = 20, node_next = 4096\<rparr>]\<rparr>"
  have t0: "top_node ?e = 0" by (simp add: empty_stack_def)
  have p0: "pop 16 8 ?e = Inr ?e"
    using pop_detaches_head [of ?e 16 8, THEN conjunct1] t0 by simp
  have inv: "stack_inv 16 8 ?s [(4112, 20), (4096, 10)]"
    by (simp add: stack_inv_def pool_inv_def resource_ok_def block_ok_def spans_apart_def)
  note th = pop_detaches_head [of ?s 16 8, THEN conjunct2, THEN conjunct2, THEN conjunct2, rule_format, OF inv]
  show ?thesis using t0 p0 inv th
    by (simp add: pop_def top_def do_deallocate_def Let_def contents_def iterate.simps)
qed





end
